theory Spec2Isabelle
  imports Complex_Main
begin

section \<open>JavaScript strings\<close>

text \<open>
  A JavaScript string is a sequence of UTF-16 code units; \<open>length\<close> counts code units and
  a regular expression without the \<open>u\<close> flag matches code units. A code unit is modelled
  by its numeric value. \<open>js\<close> turns an ASCII literal into such a sequence.
\<close>

type_synonym code_unit = nat
type_synonym js_string = "code_unit list"

definition js :: "string \<Rightarrow> js_string" where
  "js s = map of_char s"

text \<open>
  White space is the same set for \<open>String.prototype.trim\<close> and for \<open>\s\<close> in a regular
  expression: the ECMAScript \<open>WhiteSpace\<close> and \<open>LineTerminator\<close> code points (tab, line
  feed, vertical tab, form feed, carriage return, space, no-break space, U+1680,
  U+2000 to U+200A, U+2028, U+2029, U+202F, U+205F, U+3000 and U+FEFF).
\<close>

definition is_white_space :: "code_unit \<Rightarrow> bool" where
  "is_white_space c =
     (c = 9 \<or> c = 10 \<or> c = 11 \<or> c = 12 \<or> c = 13 \<or> c = 32 \<or> c = 160 \<or> c = 5760
      \<or> (8192 \<le> c \<and> c \<le> 8202) \<or> c = 8232 \<or> c = 8233 \<or> c = 8239 \<or> c = 8287
      \<or> c = 12288 \<or> c = 65279)"

text \<open>\<open>s.trim()\<close>: white space removed from both ends.\<close>

definition trim :: "js_string \<Rightarrow> js_string" where
  "trim s = rev (dropWhile is_white_space (rev (dropWhile is_white_space s)))"

section \<open>The speech engine wrapper (src/lib/text-to-speech.ts, class TextToSpeechEngine)\<close>

text \<open>
  \<open>TTSOptions\<close>: every field is optional. A voice is an opaque handle of the platform.
\<close>

record tts_options =
  voice :: "nat option"
  rate :: "real option"
  pitch :: "real option"
  volume :: "real option"

text \<open>
  A \<open>SpeechSynthesisUtterance\<close>, as far as the wrapper writes it: the constructor takes the
  text and leaves voice null, rate, pitch and volume at 1.
\<close>

record utterance =
  u_text :: js_string
  u_voice :: "nat option"
  u_rate :: real
  u_pitch :: real
  u_volume :: real

definition new_utterance :: "js_string \<Rightarrow> utterance" where
  "new_utterance t = \<lparr>u_text = t, u_voice = None, u_rate = 1, u_pitch = 1, u_volume = 1\<rparr>"

text \<open>The private fields of the class; the constructor's initial values are \<open>engine_init\<close>.\<close>

record engine =
  currentUtterance :: "utterance option"
  isPlaying :: bool
  isPaused :: bool

definition engine_init :: engine where
  "engine_init = \<lparr>currentUtterance = None, isPlaying = False, isPaused = False\<rparr>"

text \<open>
  The calls the wrapper makes on \<open>window.speechSynthesis\<close> are returned as a list of
  commands, in the order they are issued.
\<close>

datatype synth_cmd = SynthCancel | SynthPause | SynthResume | SynthSpeak utterance

text \<open>How a callback settles the promise returned by \<open>speak\<close>.\<close>

datatype settlement = Resolve | Reject js_string

text \<open>\<open>stop()\<close>: cancels and resets all three fields, whatever the state.\<close>

definition stop :: "engine \<Rightarrow> synth_cmd list \<times> engine" where
  "stop s = ([SynthCancel], s\<lparr>isPlaying := False, isPaused := False, currentUtterance := None\<rparr>)"

text \<open>\<open>pause()\<close>: guarded by \<open>this.isPlaying && !this.isPaused\<close>.\<close>

definition pause :: "engine \<Rightarrow> synth_cmd list \<times> engine" where
  "pause s = (if isPlaying s \<and> \<not> isPaused s then ([SynthPause], s\<lparr>isPaused := True\<rparr>) else ([], s))"

text \<open>\<open>resume()\<close>: guarded by \<open>this.isPaused\<close>.\<close>

definition resume :: "engine \<Rightarrow> synth_cmd list \<times> engine" where
  "resume s = (if isPaused s then ([SynthResume], s\<lparr>isPaused := False\<rparr>) else ([], s))"

text \<open>
  \<open>speak(text, options)\<close> runs in two parts. The promise executor runs at once: an implicit
  \<open>stop()\<close> when \<open>isPlaying\<close>, then a 50 ms timer is set. \<open>speak_timer\<close> is the timer's
  callback: it builds the utterance, applies the options that are present, installs the
  three callbacks and hands the utterance to the synthesizer.
\<close>

definition speak_call :: "engine \<Rightarrow> synth_cmd list \<times> engine" where
  "speak_call s = (if isPlaying s then stop s else ([], s))"

definition apply_options :: "tts_options \<Rightarrow> utterance \<Rightarrow> utterance" where
  "apply_options opts u =
     (let u1 = (case voice opts of Some v \<Rightarrow> u\<lparr>u_voice := Some v\<rparr> | None \<Rightarrow> u);
          u2 = (case rate opts of Some r \<Rightarrow> u1\<lparr>u_rate := r\<rparr> | None \<Rightarrow> u1);
          u3 = (case pitch opts of Some p \<Rightarrow> u2\<lparr>u_pitch := p\<rparr> | None \<Rightarrow> u2)
      in (case volume opts of Some v \<Rightarrow> u3\<lparr>u_volume := v\<rparr> | None \<Rightarrow> u3))"

definition speak_timer :: "js_string \<Rightarrow> tts_options \<Rightarrow> engine \<Rightarrow> synth_cmd list \<times> engine" where
  "speak_timer t opts s =
     (let u = apply_options opts (new_utterance t)
      in ([SynthSpeak u], s\<lparr>currentUtterance := Some u\<rparr>))"

text \<open>
  The callbacks installed on the utterance. \<open>onstart\<close> leaves the promise pending;
  \<open>onend\<close> resolves it; \<open>onerror\<close> resolves it for the code \<open>canceled\<close> and rejects it
  with \<open>new Error(`Speech synthesis error: ${event.error}`)\<close> otherwise. The rejection
  carries the message of that error.
\<close>

definition onstart :: "engine \<Rightarrow> engine \<times> settlement option" where
  "onstart s = (s\<lparr>isPlaying := True, isPaused := False\<rparr>, None)"

definition onend :: "engine \<Rightarrow> engine \<times> settlement option" where
  "onend s = (s\<lparr>isPlaying := False, isPaused := False, currentUtterance := None\<rparr>, Some Resolve)"

definition onerror :: "js_string \<Rightarrow> engine \<Rightarrow> engine \<times> settlement option" where
  "onerror err s =
     (s\<lparr>isPlaying := False, isPaused := False, currentUtterance := None\<rparr>,
      if err = js ''canceled'' then Some Resolve
      else Some (Reject (js ''Speech synthesis error: '' @ err)))"

text \<open>\<open>getPlaybackState()\<close>.\<close>

definition getPlaybackState :: "engine \<Rightarrow> bool \<times> bool" where
  "getPlaybackState s = (isPlaying s, isPaused s)"

text \<open>
  Everything that can happen to the wrapper: a method call, the timer of a pending
  \<open>speak\<close> firing, or the synthesizer invoking one of the callbacks. The synthesizer is
  outside the program, so its callbacks may arrive in any order.
\<close>

datatype engine_op =
    OpSpeak js_string tts_options
  | OpTimer js_string tts_options
  | OpOnStart
  | OpOnEnd
  | OpOnError js_string
  | OpPause
  | OpResume
  | OpStop

fun engine_step :: "engine \<Rightarrow> engine_op \<Rightarrow> engine" where
  "engine_step s (OpSpeak t opts) = snd (speak_call s)"
| "engine_step s (OpTimer t opts) = snd (speak_timer t opts s)"
| "engine_step s OpOnStart = fst (onstart s)"
| "engine_step s OpOnEnd = fst (onend s)"
| "engine_step s (OpOnError err) = fst (onerror err s)"
| "engine_step s OpPause = snd (pause s)"
| "engine_step s OpResume = snd (resume s)"
| "engine_step s OpStop = snd (stop s)"

definition engine_run :: "engine_op list \<Rightarrow> engine" where
  "engine_run ops = foldl engine_step engine_init ops"

text \<open>The invariant of the playback state: paused only while playing.\<close>

definition paused_implies_playing :: "engine \<Rightarrow> bool" where
  "paused_implies_playing s = (isPaused s \<longrightarrow> isPlaying s)"

text \<open>The three states of the spec, read off the two flags.\<close>

definition is_idle :: "engine \<Rightarrow> bool" where
  "is_idle s = (\<not> isPlaying s \<and> \<not> isPaused s \<and> currentUtterance s = None)"

definition is_speaking :: "engine \<Rightarrow> bool" where
  "is_speaking s = (isPlaying s \<and> \<not> isPaused s)"

section \<open>The playback sequencer (src/components/tts-controls.tsx, component TTSControls)\<close>

text \<open>
  The React state the sequencer's handlers write through the setters \<open>setIsPlaying\<close>,
  \<open>setIsPaused\<close> and \<open>setCurrentChunk\<close>. Indices are JavaScript numbers; they are
  integers here, so that \<open>textChunks.length - 1\<close> is \<open>-1\<close> for an empty sequence.
\<close>

record ui_state =
  isPlaying_ui :: bool
  isPaused_ui :: bool
  currentChunk_ui :: int

text \<open>
  A handler made by \<open>useCallback\<close> is a closure over the values of one render: the
  \<open>const\<close> bindings \<open>isPlaying\<close>, \<open>currentChunk\<close>, \<open>textChunks\<close>, ... of that render.
  A setter call changes the state of the component, never these bindings. \<open>render\<close> holds
  the captured values.
\<close>

record render =
  r_selectedVoice :: "nat option"
  r_text :: js_string
  r_textChunks :: "js_string list"
  r_isPlaying :: bool
  r_currentChunk :: int
  r_rate :: real
  r_pitch :: real
  r_volume :: real

text \<open>What a handler does besides writing the state, in order.\<close>

datatype ui_effect =
    EngineSpeak "js_string option" tts_options
  | EngineStop
  | EnginePause
  | EngineResume
  | Warn int
  | Sleep nat
  | SchedulePlay nat
  | ToastCompleted

text \<open>\<open>textChunks[i]\<close>: \<open>undefined\<close> (here \<open>None\<close>) outside the array.\<close>

definition chunk_at :: "js_string list \<Rightarrow> int \<Rightarrow> js_string option" where
  "chunk_at chunks i = (if 0 \<le> i \<and> i < int (length chunks) then Some (chunks ! nat i) else None)"

definition speak_options :: "render \<Rightarrow> tts_options" where
  "speak_options r =
     \<lparr>voice = r_selectedVoice r, rate = Some (r_rate r), pitch = Some (r_pitch r),
      volume = Some (r_volume r)\<rparr>"

text \<open>
  The \<open>for\<close> loop of \<open>handlePlay\<close>, from index \<open>i\<close>. \<open>outcome i\<close> is how the promise of
  \<open>ttsEngine.speak(textChunks[i], ...)\<close> settles; the loop is followed under the
  assumption that each of these promises settles. The test \<open>if (!isPlaying) break\<close> reads
  the captured \<open>isPlaying\<close>. A rejection is caught by the inner \<open>try\<close>, logged, and
  \<open>continue\<close> skips the 100 ms delay. Nothing else in the body can throw, so the outer
  \<open>catch\<close> of \<open>handlePlay\<close> is never entered.
\<close>

function play_loop ::
  "render \<Rightarrow> (int \<Rightarrow> settlement) \<Rightarrow> int \<Rightarrow> ui_state \<times> ui_effect list \<Rightarrow> ui_state \<times> ui_effect list"
where
  "play_loop r outcome i (st, es) =
     (if i < int (length (r_textChunks r)) then
        (if \<not> r_isPlaying r then (st, es)
         else
           (case outcome i of
              Resolve \<Rightarrow>
                play_loop r outcome (i + 1)
                  (st\<lparr>currentChunk_ui := i\<rparr>,
                   es @ [EngineSpeak (chunk_at (r_textChunks r) i) (speak_options r), Sleep 100])
            | Reject e \<Rightarrow>
                play_loop r outcome (i + 1)
                  (st\<lparr>currentChunk_ui := i\<rparr>,
                   es @ [EngineSpeak (chunk_at (r_textChunks r) i) (speak_options r), Warn i])))
      else (st, es))"
  by pat_completeness auto
termination
  by (relation "measure (\<lambda>(r, outcome, i, acc). nat (int (length (r_textChunks r)) - i))") auto

declare play_loop.simps [simp del]

text \<open>
  \<open>handlePlay\<close>. The reset after the loop compares the captured \<open>currentChunk\<close>, the index
  the loop started from, with the last index.
\<close>

definition handlePlay ::
  "render \<Rightarrow> (int \<Rightarrow> settlement) \<Rightarrow> ui_state \<Rightarrow> ui_state \<times> ui_effect list" where
  "handlePlay r outcome st =
     (if r_selectedVoice r = None \<or> r_text r = [] then (st, [])
      else
        (let st1 = st\<lparr>isPlaying_ui := True, isPaused_ui := False\<rparr>;
             (st2, es) = play_loop r outcome (r_currentChunk r) (st1, []);
             st3 = (if r_currentChunk r \<ge> int (length (r_textChunks r)) - 1
                    then st2\<lparr>currentChunk_ui := 0\<rparr> else st2)
         in (st3\<lparr>isPlaying_ui := False\<rparr>, es @ [ToastCompleted])))"

text \<open>\<open>handlePrevious\<close> and \<open>handleNext\<close>.\<close>

definition handlePrevious :: "render \<Rightarrow> ui_state \<Rightarrow> ui_state \<times> ui_effect list" where
  "handlePrevious r st =
     (if r_currentChunk r > 0 then
        (st\<lparr>currentChunk_ui := r_currentChunk r - 1\<rparr>,
         if r_isPlaying r then [EngineStop, SchedulePlay 100] else [])
      else (st, []))"

definition handleNext :: "render \<Rightarrow> ui_state \<Rightarrow> ui_state \<times> ui_effect list" where
  "handleNext r st =
     (if r_currentChunk r < int (length (r_textChunks r)) - 1 then
        (st\<lparr>currentChunk_ui := r_currentChunk r + 1\<rparr>,
         if r_isPlaying r then [EngineStop, SchedulePlay 100] else [])
      else (st, []))"

text \<open>\<open>handlePause\<close>, \<open>handleResume\<close> and \<open>handleStop\<close>.\<close>

definition handlePause :: "ui_state \<Rightarrow> ui_state \<times> ui_effect list" where
  "handlePause st = (st\<lparr>isPaused_ui := True\<rparr>, [EnginePause])"

definition handleResume :: "ui_state \<Rightarrow> ui_state \<times> ui_effect list" where
  "handleResume st = (st\<lparr>isPaused_ui := False\<rparr>, [EngineResume])"

definition handleStop :: "ui_state \<Rightarrow> ui_state \<times> ui_effect list" where
  "handleStop st =
     (st\<lparr>isPlaying_ui := False, isPaused_ui := False, currentChunk_ui := 0\<rparr>, [EngineStop])"

text \<open>The texts handed to \<open>ttsEngine.speak\<close>, in order.\<close>

fun spoken :: "ui_effect list \<Rightarrow> js_string option list" where
  "spoken [] = []"
| "spoken (EngineSpeak t opts # es) = t # spoken es"
| "spoken (e # es) = spoken es"

text \<open>
  The values a render captures agree with the state it was rendered from. A handler that
  the user triggers belongs to the latest render.
\<close>

definition rendered_from :: "render \<Rightarrow> ui_state \<Rightarrow> bool" where
  "rendered_from r st = (r_isPlaying r = isPlaying_ui st \<and> r_currentChunk r = currentChunk_ui st)"

text \<open>
  A sequence of three chunks with a voice selected, as captured by a render with the given
  \<open>isPlaying\<close> and \<open>currentChunk\<close>; the state that render was made from; and a synthesizer
  that fails on the second chunk (index 1) only.
\<close>

definition three_chunks :: "bool \<Rightarrow> int \<Rightarrow> render" where
  "three_chunks playing cur =
     \<lparr>r_selectedVoice = Some 0, r_text = js ''One. Two. Three.'',
      r_textChunks = [js ''One.'', js ''Two.'', js ''Three.''],
      r_isPlaying = playing, r_currentChunk = cur, r_rate = 1, r_pitch = 1, r_volume = 0.8\<rparr>"

definition ui_of :: "bool \<Rightarrow> int \<Rightarrow> ui_state" where
  "ui_of playing cur = \<lparr>isPlaying_ui = playing, isPaused_ui = False, currentChunk_ui = cur\<rparr>"

definition second_fails :: "int \<Rightarrow> settlement" where
  "second_fails i =
     (if i = 1 then Reject (js ''Speech synthesis error: synthesis-failed'') else Resolve)"

section \<open>The text chunker (src/lib/text-to-speech.ts, splitTextIntoChunks)\<close>

text \<open>The character class \<open>[.!?]\<close>.\<close>

definition is_terminator :: "code_unit \<Rightarrow> bool" where
  "is_terminator c = (c = 46 \<or> c = 33 \<or> c = 63)"

text \<open>
  \<open>text.split(/[.!?]+/)\<close>. The separator matches a maximal run of terminators and never
  the empty string. The result is the substring before the first run, followed by the
  split of what follows that run; a string without terminators (the empty string too) is
  returned as a single fragment. So \<open>"A. B."\<close> gives \<open>["A", " B", ""]\<close>.
\<close>

function split_terminators :: "js_string \<Rightarrow> js_string list" where
  "split_terminators s =
     (case dropWhile (\<lambda>c. \<not> is_terminator c) s of
        [] \<Rightarrow> [s]
      | t # rest \<Rightarrow>
          takeWhile (\<lambda>c. \<not> is_terminator c) s # split_terminators (dropWhile is_terminator rest))"
  by pat_completeness auto
termination
proof (relation "measure length")
  show "wf (measure length)" by simp
next
  fix s :: js_string and t rest
  assume a: "dropWhile (\<lambda>c. \<not> is_terminator c) s = t # rest"
  have "length (dropWhile is_terminator rest) \<le> length rest"
    by (rule length_dropWhile_le)
  moreover have "length (t # rest) \<le> length s"
    using length_dropWhile_le [of "\<lambda>c. \<not> is_terminator c" s] a by simp
  ultimately show "(dropWhile is_terminator rest, s) \<in> measure length" by simp
qed

declare split_terminators.simps [simp del]

text \<open>The filter callback \<open>(s) => s.trim().length > 0\<close> and the array \<open>sentences\<close>.\<close>

definition non_blank :: "js_string \<Rightarrow> bool" where
  "non_blank s = (length (trim s) > 0)"

definition sentences :: "js_string \<Rightarrow> js_string list" where
  "sentences text = filter non_blank (split_terminators text)"

text \<open>\<open>currentChunk.endsWith(".")\<close>.\<close>

definition ends_with_dot :: "js_string \<Rightarrow> bool" where
  "ends_with_dot s = (s \<noteq> [] \<and> last s = 46)"

text \<open>
  The \<open>for\<close> loop over the sentences, on the pair of the array \<open>chunks\<close> and the buffer
  \<open>currentChunk\<close>. \<open>maxChunkSize\<close> is a JavaScript number; the size test adds the two
  lengths and nothing for the separator.
\<close>

fun chunk_loop ::
  "real \<Rightarrow> js_string list \<Rightarrow> js_string list \<times> js_string \<Rightarrow> js_string list \<times> js_string"
where
  "chunk_loop maxChunkSize [] (chunks, currentChunk) = (chunks, currentChunk)"
| "chunk_loop maxChunkSize (sentence # rest) (chunks, currentChunk) =
     (let trimmedSentence = trim sentence in
      if real (length currentChunk + length trimmedSentence) > maxChunkSize
         \<and> length currentChunk > 0
      then chunk_loop maxChunkSize rest (chunks @ [trim currentChunk @ js ''.''], trimmedSentence)
      else chunk_loop maxChunkSize rest
             (chunks, currentChunk @ (if currentChunk \<noteq> [] then js ''. '' else []) @ trimmedSentence))"

text \<open>
  \<open>chunk_pass\<close> is the array \<open>chunks\<close> when the \<open>return\<close> statement is reached: the loop,
  then the last buffer pushed if it is not blank. \<open>splitTextIntoChunks\<close> returns it, or the
  text alone when it is empty. The default of \<open>maxChunkSize\<close> is 300.
\<close>

definition chunk_pass :: "js_string \<Rightarrow> real \<Rightarrow> js_string list" where
  "chunk_pass text maxChunkSize =
     (let (chunks, currentChunk) = chunk_loop maxChunkSize (sentences text) ([], [])
      in if trim currentChunk \<noteq> []
         then chunks @ [trim currentChunk @ (if ends_with_dot currentChunk then [] else js ''.'')]
         else chunks)"

definition splitTextIntoChunks :: "js_string \<Rightarrow> real \<Rightarrow> js_string list" where
  "splitTextIntoChunks text maxChunkSize =
     (let chunks = chunk_pass text maxChunkSize
      in if length chunks > 0 then chunks else [text])"

text \<open>
  Notions used to state the properties of the chunker. The sentences the chunker works
  with are the fragments that are not blank, each trimmed (\<open>trimmedSentence\<close> in the
  loop). \<open>strip_padding\<close> removes the period that closes a chunk. \<open>has_terminator\<close>
  says that a text contains one of \<open>.\<close>, \<open>!\<close>, \<open>?\<close>.
\<close>

definition sentences_of :: "js_string \<Rightarrow> js_string list" where
  "sentences_of text = map trim (sentences text)"

definition strip_padding :: "js_string \<Rightarrow> js_string" where
  "strip_padding chunk = (if ends_with_dot chunk then butlast chunk else chunk)"

definition has_terminator :: "js_string \<Rightarrow> bool" where
  "has_terminator s = list_ex is_terminator s"

text \<open>
  Two predicates of the proofs: a string with no white space at either end, and a
  fragment as \<open>sentences\<close> returns it (no terminator, not blank).
\<close>

definition trimmed :: "js_string \<Rightarrow> bool" where
  "trimmed s = (s = [] \<or> (\<not> is_white_space (hd s) \<and> \<not> is_white_space (last s)))"

definition sentence_like :: "js_string \<Rightarrow> bool" where
  "sentence_like f = ((\<forall>c\<in>set f. \<not> is_terminator c) \<and> non_blank f)"

section \<open>Cleaning extracted text (cleanExtractedText of lib/text-extraction, in src/lib/text-to-speech.ts)\<close>

text \<open>
  \<open>text.replace(/\s+/g, " ")\<close>: every maximal run of white space becomes one space.
\<close>

function collapse_white_space :: "js_string \<Rightarrow> js_string" where
  "collapse_white_space [] = []"
| "collapse_white_space (c # cs) =
     (if is_white_space c then 32 # collapse_white_space (dropWhile is_white_space cs)
      else c # collapse_white_space cs)"
  by pat_completeness auto
termination
  by (relation "measure length") (simp_all add: length_dropWhile_le less_Suc_eq_le)

text \<open>
  \<open>.replace(/\n\s*\n/g, "\n\n")\<close>. At a line feed, the greedy \<open>\s*\<close> takes the whole run
  of white space that follows and gives code units back until the next one is a line
  feed: the match ends with the last line feed of that run, and there is none if the run
  has no line feed. \<open>blank_line_run cs\<close> is the number of code units of \<open>cs\<close> the match
  takes after its first line feed. The scan goes on after the match.
\<close>

definition blank_line_run :: "js_string \<Rightarrow> nat option" where
  "blank_line_run cs =
     (let w = takeWhile is_white_space cs
      in if 10 \<in> set w then Some (length w - length (takeWhile (\<lambda>c. c \<noteq> 10) (rev w)))
         else None)"

function normalize_blank_lines :: "js_string \<Rightarrow> js_string" where
  "normalize_blank_lines [] = []"
| "normalize_blank_lines (c # cs) =
     (if c = 10 then
        (case blank_line_run cs of
           Some n \<Rightarrow> 10 # 10 # normalize_blank_lines (drop n cs)
         | None \<Rightarrow> c # normalize_blank_lines cs)
      else c # normalize_blank_lines cs)"
  by pat_completeness auto
termination
  by (relation "measure length") simp_all

definition cleanExtractedText :: "js_string \<Rightarrow> js_string" where
  "cleanExtractedText text = trim (normalize_blank_lines (collapse_white_space text))"

text \<open>
  A predicate of the proofs: every white space code unit is a space, and no two of them
  are adjacent.
\<close>

fun single_spaced :: "js_string \<Rightarrow> bool" where
  "single_spaced [] = True"
| "single_spaced [c] = (is_white_space c \<longrightarrow> c = 32)"
| "single_spaced (c # d # cs) =
     ((is_white_space c \<longrightarrow> c = 32 \<and> \<not> is_white_space d) \<and> single_spaced (d # cs))"

section \<open>Properties of the speech engine wrapper\<close>

lemma engine_step_invariant:
  "paused_implies_playing s \<Longrightarrow> paused_implies_playing (engine_step s op)"
  by (cases op)
     (auto simp add: paused_implies_playing_def speak_call_def speak_timer_def stop_def
        pause_def resume_def onstart_def onend_def onerror_def Let_def)

lemma foldl_engine_step_invariant:
  "paused_implies_playing s \<Longrightarrow> paused_implies_playing (foldl engine_step s ops)"
  by (induction ops arbitrary: s) (simp_all add: engine_step_invariant)

text \<open>
  Claim C5. Whatever the state of the wrapper, the callbacks settle the promise of
  \<open>speak\<close> as follows: the error code \<open>canceled\<close> resolves it, any other error code
  rejects it with an error whose message ends in that code, and a normal end resolves it.
\<close>

theorem speak_settlement:
  "snd (onerror (js ''canceled'') s) = Some Resolve
   \<and> (err \<noteq> js ''canceled'' \<longrightarrow>
        snd (onerror err s) = Some (Reject (js ''Speech synthesis error: '' @ err)))
   \<and> snd (onend s) = Some Resolve"
  by (simp add: onerror_def onend_def)

theorem speak_settlement_witness:
  "js ''interrupted'' \<noteq> js ''canceled''
   \<and> snd (onerror (js ''canceled'') engine_init) = Some Resolve
   \<and> snd (onerror (js ''interrupted'') engine_init)
       = Some (Reject (js ''Speech synthesis error: interrupted''))
   \<and> snd (onend engine_init) = Some Resolve"
  using speak_settlement [of engine_init "js ''interrupted''"]
  by (simp add: js_def)

text \<open>
  Claim C6. From the initial state, after any sequence of method calls, timer firings and
  callbacks, the wrapper is paused only if it is playing.
\<close>

theorem engine_invariant:
  "paused_implies_playing (engine_run ops)"
  unfolding engine_run_def
  by (rule foldl_engine_step_invariant) (simp add: paused_implies_playing_def engine_init_def)

theorem engine_invariant_witness:
  "isPaused (engine_run [OpSpeak (js ''Hi.'') \<lparr>voice = None, rate = None, pitch = None, volume = None\<rparr>,
                          OpTimer (js ''Hi.'') \<lparr>voice = None, rate = None, pitch = None, volume = None\<rparr>,
                          OpOnStart, OpPause])
   \<and> isPlaying (engine_run [OpSpeak (js ''Hi.'') \<lparr>voice = None, rate = None, pitch = None, volume = None\<rparr>,
                          OpTimer (js ''Hi.'') \<lparr>voice = None, rate = None, pitch = None, volume = None\<rparr>,
                          OpOnStart, OpPause])"
  using engine_invariant [of "[OpSpeak (js ''Hi.'') \<lparr>voice = None, rate = None, pitch = None, volume = None\<rparr>,
                          OpTimer (js ''Hi.'') \<lparr>voice = None, rate = None, pitch = None, volume = None\<rparr>,
                          OpOnStart, OpPause]"]
  by (simp add: paused_implies_playing_def engine_run_def engine_init_def speak_call_def
        speak_timer_def onstart_def pause_def Let_def)

text \<open>
  Claim C7. \<open>stop()\<close> leaves the wrapper idle from any state, and a second \<open>stop()\<close>
  leaves the state the first one produced.
\<close>

theorem stop_idempotent:
  "snd (stop (snd (stop s))) = snd (stop s) \<and> is_idle (snd (stop s))"
  by (simp add: stop_def is_idle_def)

text \<open>
  Claim C8. \<open>pause()\<close> outside the speaking state changes nothing and issues no command;
  in the speaking state it sets \<open>isPaused\<close>, keeps the other fields and asks the
  synthesizer to pause.
\<close>

theorem pause_frame:
  "(\<not> is_speaking s \<longrightarrow> pause s = ([], s))
   \<and> (is_speaking s \<longrightarrow> pause s = ([SynthPause], s\<lparr>isPaused := True\<rparr>)
         \<and> isPlaying (snd (pause s)) \<and> isPaused (snd (pause s)))"
  by (simp add: pause_def is_speaking_def)

theorem pause_frame_witness:
  "\<not> is_speaking engine_init \<and> pause engine_init = ([], engine_init)
   \<and> is_speaking (engine_init\<lparr>isPlaying := True\<rparr>)
   \<and> pause (engine_init\<lparr>isPlaying := True\<rparr>)
       = ([SynthPause], engine_init\<lparr>isPlaying := True, isPaused := True\<rparr>)"
  using pause_frame [of engine_init] pause_frame [of "engine_init\<lparr>isPlaying := True\<rparr>"]
  by (simp add: is_speaking_def engine_init_def)

section \<open>Properties of the playback sequencer\<close>

lemma spoken_append: "spoken (es @ es') = spoken es @ spoken es'"
  by (induction es rule: spoken.induct) simp_all

text \<open>
  When the captured \<open>isPlaying\<close> is true the loop hands every chunk from its start index on
  to the engine, whichever of the promises reject: a rejection does not end the loop.
\<close>

lemma play_loop_spoken:
  "r_isPlaying r \<Longrightarrow> 0 \<le> i \<Longrightarrow>
   spoken (snd (play_loop r outcome i (st, es)))
     = spoken es @ map Some (drop (nat i) (r_textChunks r))"
proof (induction r outcome i "(st, es)" arbitrary: st es rule: play_loop.induct)
  case (1 r outcome i st es)
  show ?case
  proof (cases "i < int (length (r_textChunks r))")
    case False
    then show ?thesis by (simp add: play_loop.simps)
  next
    case True
    with \<open>0 \<le> i\<close> have lt: "nat i < length (r_textChunks r)" by linarith
    have nxt: "nat (i + 1) = Suc (nat i)" using \<open>0 \<le> i\<close> by linarith
    have dr: "drop (nat i) (r_textChunks r)
                = r_textChunks r ! nat i # drop (nat (i + 1)) (r_textChunks r)"
      using lt by (simp add: nxt Cons_nth_drop_Suc)
    have ca: "chunk_at (r_textChunks r) i = Some (r_textChunks r ! nat i)"
      using True \<open>0 \<le> i\<close> by (simp add: chunk_at_def)
    show ?thesis
    proof (cases "outcome i")
      case Resolve
      with True 1 show ?thesis
        by (simp add: play_loop.simps [of r outcome i] spoken_append dr ca)
    next
      case (Reject e)
      with True 1 show ?thesis
        by (simp add: play_loop.simps [of r outcome i] spoken_append dr ca)
    qed
  qed
qed

lemma handlePlay_speaks_all:
  assumes "r_selectedVoice r \<noteq> None" "r_text r \<noteq> []" "r_isPlaying r" "0 \<le> r_currentChunk r"
  shows "spoken (snd (handlePlay r outcome st))
           = map Some (drop (nat (r_currentChunk r)) (r_textChunks r))"
proof -
  obtain st2 es where pl:
    "play_loop r outcome (r_currentChunk r)
       (st\<lparr>isPlaying_ui := True, isPaused_ui := False\<rparr>, []) = (st2, es)"
    by (cases "play_loop r outcome (r_currentChunk r)
                 (st\<lparr>isPlaying_ui := True, isPaused_ui := False\<rparr>, [])")
  have "spoken es = map Some (drop (nat (r_currentChunk r)) (r_textChunks r))"
    using play_loop_spoken [OF assms(3,4), of outcome
            "st\<lparr>isPlaying_ui := True, isPaused_ui := False\<rparr>" "[]"] pl
    by simp
  then show ?thesis
    using assms(1,2) pl by (auto simp add: handlePlay_def Let_def spoken_append)
qed

text \<open>
  When the captured \<open>isPlaying\<close> is false, the first test of the loop leaves it: nothing is
  handed to the engine.
\<close>

lemma handlePlay_speaks_nothing:
  assumes "\<not> r_isPlaying r"
  shows "spoken (snd (handlePlay r outcome st)) = []"
  using assms by (simp add: handlePlay_def Let_def play_loop.simps [of r outcome "r_currentChunk r"])

text \<open>
  Claim C1, at three chunks of which the second fails, started at index 0. Called from a
  render with \<open>isPlaying = false\<close> (the Play button of an idle player), \<open>handlePlay\<close> hands no
  chunk to the engine and only reports completion. Called from a render with
  \<open>isPlaying = true\<close>, it hands all three chunks to the engine, the third after the failure
  of the second, and ends not playing, with the current index 2 and not 0.
\<close>

theorem handlePlay_three_chunks:
  "handlePlay (three_chunks False 0) second_fails (ui_of False 0)
     = (ui_of False 0, [ToastCompleted])
   \<and> spoken (snd (handlePlay (three_chunks True 0) second_fails (ui_of True 0)))
     = [Some (js ''One.''), Some (js ''Two.''), Some (js ''Three.'')]
   \<and> fst (handlePlay (three_chunks True 0) second_fails (ui_of True 0)) = ui_of False 2"
  by (simp add: handlePlay_def three_chunks_def ui_of_def second_fails_def play_loop.simps
        chunk_at_def speak_options_def js_def)

text \<open>
  Claim C9. For a handler of the render made from the current state: \<open>handleNext\<close> at the
  last index and \<open>handlePrevious\<close> at index 0 change nothing and do nothing; with the index
  in range and not at that end, they move it by one and it stays in range.
\<close>

theorem navigation_clamped:
  assumes "rendered_from r st"
  shows "(currentChunk_ui st = int (length (r_textChunks r)) - 1 \<longrightarrow> handleNext r st = (st, []))
       \<and> (currentChunk_ui st = 0 \<longrightarrow> handlePrevious r st = (st, []))
       \<and> (0 \<le> currentChunk_ui st \<and> currentChunk_ui st < int (length (r_textChunks r)) - 1 \<longrightarrow>
            currentChunk_ui (fst (handleNext r st)) = currentChunk_ui st + 1
            \<and> 0 \<le> currentChunk_ui (fst (handleNext r st))
            \<and> currentChunk_ui (fst (handleNext r st)) \<le> int (length (r_textChunks r)) - 1)
       \<and> (0 < currentChunk_ui st \<and> currentChunk_ui st \<le> int (length (r_textChunks r)) - 1 \<longrightarrow>
            currentChunk_ui (fst (handlePrevious r st)) = currentChunk_ui st - 1
            \<and> 0 \<le> currentChunk_ui (fst (handlePrevious r st))
            \<and> currentChunk_ui (fst (handlePrevious r st)) \<le> int (length (r_textChunks r)) - 1)"
  using assms by (simp add: rendered_from_def handleNext_def handlePrevious_def)

theorem navigation_clamped_witness:
  "rendered_from (three_chunks False 2) (ui_of False 2)
   \<and> rendered_from (three_chunks False 0) (ui_of False 0)
   \<and> handleNext (three_chunks False 2) (ui_of False 2) = (ui_of False 2, [])
   \<and> handlePrevious (three_chunks False 0) (ui_of False 0) = (ui_of False 0, [])
   \<and> currentChunk_ui (fst (handleNext (three_chunks False 0) (ui_of False 0))) = 1
   \<and> currentChunk_ui (fst (handlePrevious (three_chunks False 2) (ui_of False 2))) = 1"
proof -
  have r2: "rendered_from (three_chunks False 2) (ui_of False 2)"
    and r0: "rendered_from (three_chunks False 0) (ui_of False 0)"
    by (simp_all add: rendered_from_def three_chunks_def ui_of_def)
  show ?thesis
    using r2 r0 navigation_clamped [OF r2] navigation_clamped [OF r0]
    by (simp add: three_chunks_def ui_of_def)
qed

section \<open>Properties of trimming\<close>

lemma trim_Nil: "trim [] = []"
  by (simp add: trim_def)

lemma set_trim: "set (trim s) \<subseteq> set s"
proof -
  have "set (dropWhile is_white_space (rev (dropWhile is_white_space s)))
          \<subseteq> set (rev (dropWhile is_white_space s))"
    by (rule set_dropWhileD [THEN subsetI])
  also have "\<dots> \<subseteq> set s"
    using set_dropWhileD [of _ is_white_space s] by auto
  finally show ?thesis by (simp add: trim_def)
qed

lemma last_dropWhile: "dropWhile P xs \<noteq> [] \<Longrightarrow> last (dropWhile P xs) = last xs"
proof -
  assume ne: "dropWhile P xs \<noteq> []"
  have "last xs = last (takeWhile P xs @ dropWhile P xs)" by simp
  also have "\<dots> = last (dropWhile P xs)" using ne by (rule last_appendR)
  finally show ?thesis by simp
qed

lemma dropWhile_hd_id: "xs \<noteq> [] \<Longrightarrow> \<not> P (hd xs) \<Longrightarrow> dropWhile P xs = xs"
  by (cases xs) simp_all

lemma trimmed_trim: "trimmed (trim s)"
proof (cases "trim s = []")
  case True
  then show ?thesis by (simp add: trimmed_def)
next
  case False
  define d where "d = dropWhile is_white_space s"
  define e where "e = dropWhile is_white_space (rev d)"
  have ts: "trim s = rev e" by (simp add: trim_def d_def e_def)
  with False have ene: "e \<noteq> []" by simp
  then have dne: "d \<noteq> []" by (auto simp add: e_def)
  have "\<not> is_white_space (hd e)" using ene unfolding e_def by (rule hd_dropWhile)
  then have l: "\<not> is_white_space (last (trim s))" using ene by (simp add: ts last_rev)
  have "last e = last (rev d)" using ene unfolding e_def by (rule last_dropWhile)
  also have "\<dots> = hd d" using dne by (simp add: last_rev)
  finally have "hd (trim s) = hd d" using ene by (simp add: ts hd_rev)
  moreover have "\<not> is_white_space (hd d)" using dne unfolding d_def by (rule hd_dropWhile)
  ultimately show ?thesis using l by (simp add: trimmed_def)
qed

lemma trim_trimmed: "trimmed s \<Longrightarrow> trim s = s"
proof (cases "s = []")
  case True
  then show ?thesis by (simp add: trim_def)
next
  case False
  assume "trimmed s"
  with False have h: "\<not> is_white_space (hd s)" and l: "\<not> is_white_space (last s)"
    by (simp_all add: trimmed_def)
  have a: "dropWhile is_white_space s = s" using False h by (simp add: dropWhile_hd_id)
  have "rev s \<noteq> []" using False by simp
  moreover have "hd (rev s) = last s" using False by (simp add: hd_rev)
  ultimately have "dropWhile is_white_space (rev s) = rev s"
    using l by (simp add: dropWhile_hd_id)
  with a show ?thesis by (simp add: trim_def)
qed

lemma trim_idem: "trim (trim s) = trim s"
  by (rule trim_trimmed) (rule trimmed_trim)

lemma trim_white_Cons: "is_white_space c \<Longrightarrow> trim (c # s) = trim s"
  by (simp add: trim_def)

lemma trimmed_join:
  assumes "trimmed a" "a \<noteq> []" "trimmed b" "b \<noteq> []"
  shows "trimmed (a @ m @ b)"
  using assms by (simp add: trimmed_def)

text \<open>The trimmed string is a contiguous part of the string.\<close>

lemma trim_infix: "\<exists>a b. s = a @ trim s @ b"
proof -
  define d where "d = dropWhile is_white_space s"
  have "rev (takeWhile is_white_space (rev d) @ dropWhile is_white_space (rev d)) = d"
    by (simp only: takeWhile_dropWhile_id rev_rev_ident)
  then have "d = rev (dropWhile is_white_space (rev d)) @ rev (takeWhile is_white_space (rev d))"
    by (simp only: rev_append)
  then have "d = trim s @ rev (takeWhile is_white_space (rev d))"
    by (simp only: trim_def d_def)
  moreover have "s = takeWhile is_white_space s @ d" by (simp add: d_def)
  ultimately have "s = takeWhile is_white_space s @ trim s @ rev (takeWhile is_white_space (rev d))"
    by simp
  then show ?thesis by blast
qed

section \<open>Properties of the text chunker\<close>

subsection \<open>Splitting at terminators\<close>

lemma split_terminators_Nil: "split_terminators [] = [[]]"
  by (simp add: split_terminators.simps [of "[]"])

lemma split_terminators_free:
  assumes "\<forall>c\<in>set s. \<not> is_terminator c"
  shows "split_terminators s = [s]"
proof -
  have "dropWhile (\<lambda>c. \<not> is_terminator c) s = []" using assms by simp
  then show ?thesis by (simp add: split_terminators.simps [of s] del: dropWhile_eq_Nil_conv)
qed

lemma split_terminators_start:
  assumes "is_terminator x"
  shows "split_terminators (x # b) = [] # split_terminators (dropWhile is_terminator b)"
  using assms by (simp add: split_terminators.simps [of "x # b"])

text \<open>The split, one code unit at a time: the form used to evaluate it on a literal.\<close>

lemma split_terminators_Cons:
  "split_terminators (c # cs) =
     (if is_terminator c then [] # split_terminators (dropWhile is_terminator cs)
      else (c # hd (split_terminators cs)) # tl (split_terminators cs))"
proof (cases "is_terminator c")
  case True
  then show ?thesis by (simp add: split_terminators_start)
next
  case False
  show ?thesis
  proof (cases "dropWhile (\<lambda>c. \<not> is_terminator c) cs")
    case Nil
    with False show ?thesis
      by (simp add: split_terminators.simps [of "c # cs"] split_terminators.simps [of cs]
            del: dropWhile_eq_Nil_conv)
  next
    case (Cons t rest)
    with False show ?thesis
      by (simp add: split_terminators.simps [of "c # cs"] split_terminators.simps [of cs])
  qed
qed

lemmas chunker_eval =
  splitTextIntoChunks_def chunk_pass_def sentences_def non_blank_def split_terminators_Nil
  split_terminators_Cons js_def is_terminator_def trim_def is_white_space_def ends_with_dot_def

lemma split_terminators_no_terminator:
  "f \<in> set (split_terminators s) \<Longrightarrow> c \<in> set f \<Longrightarrow> \<not> is_terminator c"
proof (induction s rule: split_terminators.induct)
  case (1 s)
  let ?nt = "\<lambda>c. \<not> is_terminator c"
  show ?case
  proof (cases "dropWhile ?nt s")
    case Nil
    then have "\<forall>c\<in>set s. \<not> is_terminator c" by simp
    moreover from this have "f = s"
      using "1.prems"(1) by (simp add: split_terminators_free)
    ultimately show ?thesis using "1.prems"(2) by simp
  next
    case (Cons t rest)
    then have "f = takeWhile ?nt s \<or> f \<in> set (split_terminators (dropWhile is_terminator rest))"
      using "1.prems"(1) by (simp add: split_terminators.simps [of s])
    then show ?thesis
    proof
      assume "f = takeWhile ?nt s"
      then show ?thesis using "1.prems"(2) set_takeWhileD [of c ?nt s] by simp
    next
      assume "f \<in> set (split_terminators (dropWhile is_terminator rest))"
      then show ?thesis using "1.IH" [OF Cons] "1.prems"(2) by simp
    qed
  qed
qed

lemma non_blank_Nil: "\<not> non_blank []"
  by (simp add: non_blank_def trim_Nil)

lemma sentences_sentence_like: "f \<in> set (sentences s) \<Longrightarrow> sentence_like f"
  using split_terminators_no_terminator [of f s]
  by (auto simp add: sentences_def sentence_like_def)

lemma sentences_dropWhile:
  "filter non_blank (split_terminators (dropWhile is_terminator b)) = sentences b"
proof (cases b)
  case Nil
  then show ?thesis by (simp add: sentences_def)
next
  case (Cons x b')
  show ?thesis
  proof (cases "is_terminator x")
    case True
    then show ?thesis
      by (simp add: Cons sentences_def split_terminators_start non_blank_Nil)
  next
    case False
    then show ?thesis by (simp add: Cons sentences_def)
  qed
qed

lemma sentences_start:
  assumes "is_terminator x"
  shows "sentences (x # b) = sentences b"
proof -
  have "sentences (x # b) = filter non_blank (split_terminators (dropWhile is_terminator b))"
    using assms by (simp add: sentences_def split_terminators_start non_blank_Nil)
  then show ?thesis by (simp add: sentences_dropWhile)
qed

text \<open>
  The sentences of two texts joined by a terminator are the sentences of the first
  followed by those of the second.
\<close>

lemma sentences_append:
  assumes "is_terminator x"
  shows "sentences (a @ x # b) = sentences a @ sentences b"
proof (induction a rule: split_terminators.induct)
  case (1 a)
  let ?nt = "\<lambda>c. \<not> is_terminator c"
  show ?case
  proof (cases "dropWhile ?nt a")
    case Nil
    then have free: "\<forall>c\<in>set a. \<not> is_terminator c" by simp
    then have dw: "dropWhile ?nt (a @ x # b) = x # b"
      using assms by (simp add: dropWhile_append2)
    have tw: "takeWhile ?nt (a @ x # b) = a"
      using free assms by (simp add: takeWhile_append2)
    have "split_terminators (a @ x # b) = a # split_terminators (dropWhile is_terminator b)"
      using assms by (simp add: split_terminators.simps [of "a @ x # b"] dw tw)
    then have "sentences (a @ x # b) = filter non_blank [a] @ sentences b"
      by (simp add: sentences_def sentences_dropWhile [unfolded sentences_def])
    then show ?thesis using free by (simp add: sentences_def split_terminators_free)
  next
    case (Cons t rest)
    have "t \<in> set (dropWhile ?nt a)" by (simp add: Cons)
    then have tin: "t \<in> set a" by (rule set_dropWhileD)
    have "\<not> ?nt (hd (dropWhile ?nt a))" by (rule hd_dropWhile) (simp add: Cons)
    then have tt: "is_terminator t" by (simp add: Cons)
    have dw: "dropWhile ?nt (a @ x # b) = t # (rest @ x # b)"
      using tin tt by (simp add: dropWhile_append1 [of t a ?nt] Cons)
    have tw: "takeWhile ?nt (a @ x # b) = takeWhile ?nt a"
      using tin tt by (simp add: takeWhile_append1 [of t a ?nt])
    have sa: "split_terminators a
                = takeWhile ?nt a # split_terminators (dropWhile is_terminator rest)"
      by (simp add: split_terminators.simps [of a] Cons)
    have sab: "split_terminators (a @ x # b)
                = takeWhile ?nt a # split_terminators (dropWhile is_terminator (rest @ x # b))"
      by (simp add: split_terminators.simps [of "a @ x # b"] dw tw)
    have tail: "filter non_blank (split_terminators (dropWhile is_terminator (rest @ x # b)))
                  = sentences (dropWhile is_terminator rest @ x # b)"
    proof (cases "\<forall>c\<in>set rest. is_terminator c")
      case True
      then have d1: "dropWhile is_terminator (rest @ x # b) = dropWhile is_terminator b"
        using assms by (simp add: dropWhile_append2)
      have d2: "dropWhile is_terminator rest = []" using True by simp
      show ?thesis unfolding d1 d2
        using assms by (simp add: sentences_dropWhile sentences_start)
    next
      case False
      then obtain c where "c \<in> set rest" "\<not> is_terminator c" by blast
      then have "dropWhile is_terminator (rest @ x # b) = dropWhile is_terminator rest @ x # b"
        by (simp add: dropWhile_append1 [of c rest is_terminator])
      then show ?thesis by (simp add: sentences_def)
    qed
    have "sentences (a @ x # b)
            = filter non_blank [takeWhile ?nt a] @ sentences (dropWhile is_terminator rest @ x # b)"
      by (simp add: sentences_def sab tail [unfolded sentences_def])
    also have "\<dots> = filter non_blank [takeWhile ?nt a]
                        @ sentences (dropWhile is_terminator rest) @ sentences b"
      using "1.IH" [OF Cons] by simp
    also have "\<dots> = sentences a @ sentences b"
      by (simp add: sentences_def sa)
    finally show ?thesis .
  qed
qed

subsection \<open>The sentences carried by the buffer and by a sealed chunk\<close>

lemma is_terminator_dot: "is_terminator 46"
  by (simp add: is_terminator_def)

lemma is_white_space_space: "is_white_space 32"
  by (simp add: is_white_space_def)

lemma js_dot: "js ''.'' = [46]"
  by (simp add: js_def)

lemma js_dot_space: "js ''. '' = [46, 32]"
  by (simp add: js_def)

lemma sentences_of_Nil: "sentences_of [] = []"
  by (simp add: sentences_of_def sentences_def split_terminators_Nil non_blank_Nil)

lemma sentences_of_dot: "sentences_of (s @ [46]) = sentences_of s"
  using sentences_append [OF is_terminator_dot, of s "[]"] sentences_of_Nil
  by (simp add: sentences_of_def)

lemma sentences_of_trimmed_sentence:
  assumes "sentence_like f"
  shows "sentences_of (trim f) = [trim f]" and "sentences_of (32 # trim f) = [trim f]"
proof -
  have free: "\<forall>c\<in>set (trim f). \<not> is_terminator c"
    using assms set_trim [of f] by (auto simp add: sentence_like_def)
  have ne: "trim f \<noteq> []" using assms by (simp add: sentence_like_def non_blank_def)
  have nb: "non_blank (trim f)" using ne by (simp add: non_blank_def trim_idem)
  show "sentences_of (trim f) = [trim f]"
    using free nb by (simp add: sentences_of_def sentences_def split_terminators_free trim_idem)
  have free': "\<forall>c\<in>set (32 # trim f). \<not> is_terminator c"
    using free by (simp add: is_terminator_def)
  have t: "trim (32 # trim f) = trim f"
    by (simp add: trim_white_Cons is_white_space_space trim_idem)
  have nb': "non_blank (32 # trim f)" using ne by (simp add: non_blank_def t)
  show "sentences_of (32 # trim f) = [trim f]"
    using nb' by (simp add: sentences_of_def sentences_def split_terminators_free [OF free'] t)
qed

lemma buffer_append:
  assumes "trimmed cur" "sentence_like f"
  shows "trimmed (cur @ (if cur \<noteq> [] then js ''. '' else []) @ trim f)"
    and "sentences_of (cur @ (if cur \<noteq> [] then js ''. '' else []) @ trim f)
           = sentences_of cur @ [trim f]"
    and "cur @ (if cur \<noteq> [] then js ''. '' else []) @ trim f \<noteq> []"
proof -
  have ne: "trim f \<noteq> []" using assms(2) by (simp add: sentence_like_def non_blank_def)
  then show "cur @ (if cur \<noteq> [] then js ''. '' else []) @ trim f \<noteq> []" by simp
  show "trimmed (cur @ (if cur \<noteq> [] then js ''. '' else []) @ trim f)"
  proof (cases "cur = []")
    case True
    then show ?thesis by (simp add: trimmed_trim)
  next
    case False
    then show ?thesis
      using trimmed_join [OF assms(1) False trimmed_trim ne] by simp
  qed
  show "sentences_of (cur @ (if cur \<noteq> [] then js ''. '' else []) @ trim f)
          = sentences_of cur @ [trim f]"
  proof (cases "cur = []")
    case True
    then show ?thesis
      by (simp add: sentences_of_trimmed_sentence [OF assms(2)] sentences_of_Nil)
  next
    case False
    have "sentences_of (cur @ 46 # (32 # trim f)) = sentences_of cur @ sentences_of (32 # trim f)"
      using sentences_append [OF is_terminator_dot, of cur "32 # trim f"]
      by (simp add: sentences_of_def)
    then show ?thesis
      using False by (simp add: js_dot_space sentences_of_trimmed_sentence [OF assms(2)])
  qed
qed

text \<open>
  The invariant of the loop: the buffer has no white space at its ends, and the sentences
  of the sealed chunks, then of the buffer, then the sentences still to come, are always
  the same list. Once a sentence has been taken the buffer is never empty again.
\<close>

lemma chunk_loop_sentences:
  assumes "\<forall>f\<in>set rest. sentence_like f" "trimmed cur"
  shows "trimmed (snd (chunk_loop m rest (chunks, cur)))
       \<and> concat (map sentences_of (fst (chunk_loop m rest (chunks, cur))))
           @ sentences_of (snd (chunk_loop m rest (chunks, cur)))
         = concat (map sentences_of chunks) @ sentences_of cur @ map trim rest
       \<and> (rest \<noteq> [] \<or> cur \<noteq> [] \<longrightarrow> snd (chunk_loop m rest (chunks, cur)) \<noteq> [])"
  using assms
proof (induction rest arbitrary: chunks cur)
  case Nil
  then show ?case by simp
next
  case (Cons f rest)
  have sl: "sentence_like f" and rest: "\<forall>f\<in>set rest. sentence_like f"
    using Cons.prems(1) by simp_all
  have ne: "trim f \<noteq> []" using sl by (simp add: sentence_like_def non_blank_def)
  show ?case
  proof (cases "real (length cur + length (trim f)) > m \<and> length cur > 0")
    case True
    have step: "chunk_loop m (f # rest) (chunks, cur)
                  = chunk_loop m rest (chunks @ [trim cur @ js ''.''], trim f)"
      using True by (simp add: Let_def)
    have sealed: "sentences_of (trim cur @ js ''.'') = sentences_of cur"
      using Cons.prems(2) by (simp add: trim_trimmed js_dot sentences_of_dot)
    show ?thesis
      unfolding step
      using Cons.IH [of "trim f" "chunks @ [trim cur @ js ''.'']", OF rest trimmed_trim] ne
      by (simp add: sealed sentences_of_trimmed_sentence [OF sl])
  next
    case False
    let ?cur = "cur @ (if cur \<noteq> [] then js ''. '' else []) @ trim f"
    have step: "chunk_loop m (f # rest) (chunks, cur) = chunk_loop m rest (chunks, ?cur)"
      using False by (auto simp add: Let_def)
    note b = buffer_append [OF Cons.prems(2) sl]
    show ?thesis
      unfolding step
      using Cons.IH [of ?cur chunks, OF rest b(1)] b(3)
      by (simp only: b(2)) simp
  qed
qed

lemma chunk_pass_sentences:
  "concat (map sentences_of (chunk_pass text m)) = sentences_of text"
  and chunk_pass_empty: "chunk_pass text m = [] \<longleftrightarrow> sentences text = []"
proof -
  obtain chunks cur where loop: "chunk_loop m (sentences text) ([], []) = (chunks, cur)"
    by (cases "chunk_loop m (sentences text) ([], [])")
  have "\<forall>f\<in>set (sentences text). sentence_like f"
    by (simp add: sentences_sentence_like)
  moreover have "trimmed []" by (simp add: trimmed_def)
  ultimately have inv0:
    "trimmed cur
     \<and> concat (map sentences_of chunks) @ sentences_of cur
         = concat (map sentences_of []) @ sentences_of [] @ map trim (sentences text)
     \<and> (sentences text \<noteq> [] \<or> [] \<noteq> ([] :: js_string) \<longrightarrow> cur \<noteq> [])"
    using chunk_loop_sentences [of "sentences text" "[]" m "[]"] loop by simp
  have inv:
    "trimmed cur"
    "concat (map sentences_of chunks) @ sentences_of cur = sentences_of text"
    "sentences text \<noteq> [] \<longrightarrow> cur \<noteq> []"
    using inv0 by (simp_all add: sentences_of_Nil sentences_of_def [of "text"])
  have tc: "trim cur = cur" using inv(1) by (rule trim_trimmed)
  have pass: "chunk_pass text m
                = (if cur \<noteq> [] then chunks @ [cur @ (if ends_with_dot cur then [] else js ''.'')]
                   else chunks)"
    by (simp add: chunk_pass_def loop tc)
  have last_chunk:
    "sentences_of (cur @ (if ends_with_dot cur then [] else js ''.'')) = sentences_of cur"
    by (simp add: js_dot sentences_of_dot)
  show "concat (map sentences_of (chunk_pass text m)) = sentences_of text"
  proof (cases "cur = []")
    case True
    then show ?thesis using inv(2) by (simp add: pass sentences_of_Nil)
  next
    case False
    then show ?thesis using inv(2) last_chunk by (simp add: pass)
  qed
  show "chunk_pass text m = [] \<longleftrightarrow> sentences text = []"
  proof
    assume "chunk_pass text m = []"
    then have "cur = []" by (simp add: pass split: if_splits)
    then show "sentences text = []" using inv(3) by blast
  next
    assume "sentences text = []"
    then show "chunk_pass text m = []" by (simp add: chunk_pass_def trim_Nil)
  qed
qed

lemma sentences_of_strip_padding: "sentences_of (strip_padding c) = sentences_of c"
proof (cases "ends_with_dot c")
  case True
  then have "c = butlast c @ [46]"
    using append_butlast_last_id [of c] by (simp add: ends_with_dot_def)
  then have "sentences_of c = sentences_of (butlast c)"
    using sentences_of_dot [of "butlast c"] by simp
  then show ?thesis using True by (simp add: strip_padding_def)
next
  case False
  then show ?thesis by (simp add: strip_padding_def)
qed

lemma no_terminator_single_chunk:
  assumes "\<not> has_terminator text" "trim text \<noteq> []"
  shows "chunk_pass text m = [trim text @ js ''.'']"
proof -
  have free: "\<forall>c\<in>set text. \<not> is_terminator c"
    using assms(1) by (simp add: has_terminator_def list_ex_iff)
  have s: "sentences text = [text]"
    using assms(2) by (simp add: sentences_def split_terminators_free [OF free] non_blank_def)
  have "last (trim text) \<in> set text"
    using assms(2) set_trim [of "text"] last_in_set [of "trim text"] by blast
  then have "last (trim text) \<noteq> 46" using free is_terminator_dot by auto
  then have "\<not> ends_with_dot (trim text)" by (simp add: ends_with_dot_def)
  then show ?thesis
    using assms(2) by (simp add: chunk_pass_def s trim_idem)
qed

subsection \<open>The claims about the chunker\<close>

text \<open>
  Claim C2 as stated gives a text without sentence terminators as an instance of the
  pass producing zero chunks, for which the text itself is returned. It is not one: for
  \<open>"Hello"\<close> the pass produces the chunk \<open>"Hello."\<close>, and that is what is returned.
\<close>

theorem split_no_terminator_counterexample:
  "\<not> has_terminator (js ''Hello'')
   \<and> chunk_pass (js ''Hello'') 300 = [js ''Hello.'']
   \<and> splitTextIntoChunks (js ''Hello'') 300 \<noteq> [js ''Hello'']"
  by (simp add: has_terminator_def chunker_eval)

text \<open>
  Claim C2, amended. For every text and every \<open>maxChunkSize\<close> the result is not empty.
  When the pass produces zero chunks the text is returned as the only element, and that
  happens exactly when no fragment between terminators has a code unit that is not white
  space. A text without terminators that is not blank gives one chunk, the trimmed text
  followed by a period.
\<close>

theorem split_nonempty:
  "splitTextIntoChunks text maxChunkSize \<noteq> []
   \<and> (chunk_pass text maxChunkSize = [] \<longrightarrow> splitTextIntoChunks text maxChunkSize = [text])
   \<and> (chunk_pass text maxChunkSize = [] \<longleftrightarrow> sentences text = [])
   \<and> (\<not> has_terminator text \<and> trim text \<noteq> [] \<longrightarrow>
        splitTextIntoChunks text maxChunkSize = [trim text @ js ''.''])"
  using chunk_pass_empty [of "text" maxChunkSize]
    no_terminator_single_chunk [of "text" maxChunkSize]
  by (simp add: splitTextIntoChunks_def Let_def)

theorem split_nonempty_witness:
  "chunk_pass (js ''...'') 300 = [] \<and> sentences (js ''...'') = []
   \<and> splitTextIntoChunks (js ''...'') 300 = [js ''...'']
   \<and> \<not> has_terminator (js ''Hello'') \<and> trim (js ''Hello'') \<noteq> []
   \<and> splitTextIntoChunks (js ''Hello'') 300 = [js ''Hello.'']"
proof -
  have a: "sentences (js ''...'') = []"
    by (simp add: chunker_eval)
  have b: "\<not> has_terminator (js ''Hello'')" "trim (js ''Hello'') = js ''Hello''"
    by (simp_all add: has_terminator_def chunker_eval)
  show ?thesis
    using a b split_nonempty [of "js ''...''" 300] split_nonempty [of "js ''Hello''" 300]
    by (simp add: js_def)
qed

text \<open>
  Claim C3 as stated takes the original sentences to be the fragments obtained by
  splitting the input at the terminators. The chunks do not determine these fragments:
  \<open>"A. B"\<close> and \<open>"A.  B"\<close> have different fragments, also after the blank ones are
  discarded, and the same chunks.
\<close>

theorem split_fragments_counterexample:
  "splitTextIntoChunks (js ''A. B'') 300 = splitTextIntoChunks (js ''A.  B'') 300
   \<and> split_terminators (js ''A. B'') \<noteq> split_terminators (js ''A.  B'')
   \<and> sentences (js ''A. B'') \<noteq> sentences (js ''A.  B'')"
  by (simp add: chunker_eval)

text \<open>
  Claim C3, amended. For every text and every \<open>maxChunkSize\<close>: take each chunk without
  its closing period, read off its sentences, and concatenate over the chunks in order.
  The result is the list of sentences of the text, in their order, where the sentences of
  a string are its fragments between terminators that are not blank, each trimmed.
\<close>

theorem split_roundtrip:
  "concat (map (\<lambda>chunk. sentences_of (strip_padding chunk))
             (splitTextIntoChunks text maxChunkSize))
     = sentences_of text"
proof (cases "chunk_pass text maxChunkSize = []")
  case True
  then show ?thesis by (simp add: splitTextIntoChunks_def sentences_of_strip_padding)
next
  case False
  then show ?thesis
    using chunk_pass_sentences [of "text" maxChunkSize]
    by (simp add: splitTextIntoChunks_def sentences_of_strip_padding)
qed

theorem split_roundtrip_witness:
  "splitTextIntoChunks (js ''Hi!  Bye? '') 300 = [js ''Hi. Bye.'']
   \<and> sentences_of (strip_padding (js ''Hi. Bye.'')) = [js ''Hi'', js ''Bye'']
   \<and> sentences_of (js ''Hi!  Bye? '') = [js ''Hi'', js ''Bye'']"
  using split_roundtrip [of "js ''Hi!  Bye? ''" 300]
  by (simp add: sentences_of_def strip_padding_def chunker_eval)

text \<open>
  The size test of the loop leaves out the separator that the next line puts into the
  buffer. For the buffer \<open>A\<close> and the sentence \<open>B\<close> it compares 1 + 1 with 3 and joins
  them; the buffer it has built is \<open>A. B\<close>, of length 4, which the test of the next pass
  itself counts as more than 3.
\<close>

lemma chunk_loop_ab_buffer:
  "chunk_loop 3 [js ''A'', js '' B''] ([], []) = ([], js ''A. B'')
   \<and> length (js ''A'') + length (js ''B'') = 2
   \<and> length (js ''A. B'') = 4"
  by (simp add: js_def trim_def is_white_space_def)

text \<open>
  Claim C4 says that \<open>splitTextIntoChunks("A. B. C.", 3)\<close> is \<open>["A.", "B.", "C."]\<close>, each
  sentence a chunk of its own, since any two sentences together exceed the size 3. The
  code returns \<open>["A. B.", "C."]\<close> instead: its first chunk joins two sentences and has
  5 code units, above the size 3 that the parameter names, although the three chunks of
  the claim stay within it.
\<close>

theorem split_abc:
  "splitTextIntoChunks (js ''A. B. C.'') 3 = [js ''A. B.'', js ''C.'']
   \<and> splitTextIntoChunks (js ''A. B. C.'') 3 \<noteq> [js ''A.'', js ''B.'', js ''C.'']
   \<and> map length (splitTextIntoChunks (js ''A. B. C.'') 3) = [5, 2]"
  by (simp add: chunker_eval)

text \<open>With the size 1 the test separates every pair of sentences.\<close>

lemma split_abc_size_one:
  "splitTextIntoChunks (js ''A. B. C.'') 1 = [js ''A.'', js ''B.'', js ''C.'']"
  by (simp add: chunker_eval)

text \<open>The other example of the spec: one sentence that fits.\<close>

lemma split_hello_world:
  "splitTextIntoChunks (js ''Hello world.'') 300 = [js ''Hello world.'']"
  by (simp add: chunker_eval)

section \<open>Properties of cleaning extracted text\<close>

lemma single_spaced_collapse: "single_spaced (collapse_white_space s)"
proof (induction s rule: collapse_white_space.induct)
  case 1
  then show ?case by simp
next
  case (2 c cs)
  show ?case
  proof (cases "is_white_space c")
    case True
    show ?thesis
    proof (cases "dropWhile is_white_space cs")
      case Nil
      then show ?thesis using True by (simp del: dropWhile_eq_Nil_conv)
    next
      case (Cons d ds)
      have "\<not> is_white_space (hd (dropWhile is_white_space cs))"
        by (rule hd_dropWhile) (simp add: Cons)
      then have "\<not> is_white_space d" by (simp add: Cons)
      then show ?thesis using True 2(1) [OF True] by (simp add: Cons)
    qed
  next
    case False
    then show ?thesis using 2(2) [OF False] by (cases "collapse_white_space cs") simp_all
  qed
qed

lemma collapse_single_spaced: "single_spaced s \<Longrightarrow> collapse_white_space s = s"
  by (induction s rule: single_spaced.induct) auto

lemma single_spaced_white: "single_spaced s \<Longrightarrow> c \<in> set s \<Longrightarrow> is_white_space c \<Longrightarrow> c = 32"
  by (induction s rule: single_spaced.induct) auto

lemma single_spaced_no_line_feed: "single_spaced s \<Longrightarrow> 10 \<notin> set s"
  using single_spaced_white [of s 10] by (auto simp add: is_white_space_def)

lemma normalize_no_line_feed: "10 \<notin> set s \<Longrightarrow> normalize_blank_lines s = s"
  by (induction s) simp_all

lemma single_spaced_tl: "single_spaced (c # s) \<Longrightarrow> single_spaced s"
  by (cases s) simp_all

lemma single_spaced_suffix: "single_spaced (a @ b) \<Longrightarrow> single_spaced b"
  by (induction a) (auto dest: single_spaced_tl)

lemma single_spaced_prefix: "single_spaced (a @ b) \<Longrightarrow> single_spaced a"
proof (induction a rule: single_spaced.induct)
  case 1
  then show ?case by simp
next
  case (2 c)
  then show ?case by (cases b) simp_all
next
  case (3 c d cs)
  then show ?case by simp
qed

lemma single_spaced_trim: "single_spaced s \<Longrightarrow> single_spaced (trim s)"
proof -
  assume ss: "single_spaced s"
  obtain a b where "s = a @ trim s @ b" using trim_infix by blast
  with ss have "single_spaced (a @ trim s @ b)" by simp
  then have "single_spaced (trim s @ b)" by (rule single_spaced_suffix)
  then show ?thesis by (rule single_spaced_prefix)
qed

text \<open>
  After the first replacement no line feed is left, so the second replacement finds
  nothing to replace.
\<close>

lemma cleanExtractedText_alt: "cleanExtractedText t = trim (collapse_white_space t)"
  by (simp add: cleanExtractedText_def normalize_no_line_feed single_spaced_no_line_feed
        single_spaced_collapse)

lemma cleanExtractedText_example:
  "cleanExtractedText (js ''  a   b '' @ [10, 32, 10, 10] @ js ''c  '') = js ''a b c''"
  by (simp add: cleanExtractedText_def blank_line_run_def js_def trim_def is_white_space_def)

text \<open>
  Claim C10. Cleaning a cleaned text changes nothing, for every string.
\<close>

theorem cleanExtractedText_idempotent:
  "cleanExtractedText (cleanExtractedText t) = cleanExtractedText t"
proof -
  let ?u = "trim (collapse_white_space t)"
  have ss: "single_spaced ?u" by (simp add: single_spaced_trim single_spaced_collapse)
  have "cleanExtractedText ?u = trim (collapse_white_space ?u)" by (rule cleanExtractedText_alt)
  also have "\<dots> = trim ?u" using ss by (simp add: collapse_single_spaced)
  also have "\<dots> = ?u" by (rule trim_idem)
  finally show ?thesis by (simp add: cleanExtractedText_alt)
qed

end
